theory Spec2Isabelle
  imports Main "HOL-Library.Word"
begin

unbundle bit_operations_syntax

section \<open>Python values used by binary\_protocol.py\<close>

text \<open>
  A Python \<open>bytes\<close> or \<open>bytearray\<close> is a sequence of integers in \<open>range(256)\<close>: a list of
  8-bit words. Python integers are unbounded: \<open>int\<close>. A raised exception is the left
  summand of the result, a returned value the right one; \<open>None\<close> is \<open>None\<close>.
\<close>

type_synonym byte = "8 word"
type_synonym bytes = "byte list"

datatype exn =
    ValueError string
  | IndexError
  | StructError
  | UnicodeEncodeError
  | OverflowError

definition PROTO_START_BYTE :: int where
  "PROTO_START_BYTE = 0xAA"

definition PROTO_MAX_PAYLOAD :: int where
  "PROTO_MAX_PAYLOAD = 1024"

definition len :: "'a list \<Rightarrow> int" where
  "len xs = int (length xs)"

text \<open>\<open>xs[i]\<close> on bytes: a negative index counts from the end, an index out of range
  raises IndexError, the element is an int.\<close>

definition py_index :: "bytes \<Rightarrow> int \<Rightarrow> exn + int" where
  "py_index xs i =
     (let n = len xs; k = (if i < 0 then i + n else i)
      in if 0 \<le> k \<and> k < n then Inr (uint (xs ! nat k)) else Inl IndexError)"

text \<open>\<open>xs[i:j]\<close>: each bound is clamped into \<open>0..len xs\<close> after a negative one has
  been counted from the end; an empty range is the empty sequence. It never raises.\<close>

definition slice_bound :: "int \<Rightarrow> int \<Rightarrow> int" where
  "slice_bound n i = (if i < 0 then max (i + n) 0 else min i n)"

definition py_slice :: "'a list \<Rightarrow> int \<Rightarrow> int \<Rightarrow> 'a list" where
  "py_slice xs i j =
     (let n = len xs; lo = slice_bound n i; hi = slice_bound n j
      in take (nat (hi - lo)) (drop (nat lo) xs))"

text \<open>\<open>bytearray.append(v)\<close> accepts only \<open>0 \<le> v < 256\<close> and raises ValueError otherwise.\<close>

definition byte_of_int :: "int \<Rightarrow> exn + byte" where
  "byte_of_int v =
     (if 0 \<le> v \<and> v < 256 then Inr (word_of_int v)
      else Inl (ValueError ''byte must be in range(0, 256)''))"

text \<open>\<open>struct.pack\<close> and \<open>struct.unpack\<close> with the big-endian formats the module uses:
  \<open>>H\<close> (unsigned 16 bit), \<open>>h\<close> (signed 16 bit), \<open>>i\<close> (signed 32 bit). Packing a value
  out of the format's range and unpacking a buffer of the wrong size raise struct.error.\<close>

definition pack_H :: "int \<Rightarrow> exn + bytes" where
  "pack_H v =
     (if 0 \<le> v \<and> v \<le> 0xFFFF then Inr [word_of_int (v div 256), word_of_int v]
      else Inl StructError)"

definition pack_h :: "int \<Rightarrow> exn + bytes" where
  "pack_h v =
     (if - 0x8000 \<le> v \<and> v \<le> 0x7FFF then Inr [word_of_int (v div 256), word_of_int v]
      else Inl StructError)"

definition pack_i :: "int \<Rightarrow> exn + bytes" where
  "pack_i v =
     (if - 0x80000000 \<le> v \<and> v \<le> 0x7FFFFFFF
      then Inr [word_of_int (v div 0x1000000), word_of_int (v div 0x10000),
                word_of_int (v div 0x100), word_of_int v]
      else Inl StructError)"

definition unpack_H :: "bytes \<Rightarrow> exn + int" where
  "unpack_H bs =
     (case bs of
        [a, b] \<Rightarrow> Inr (uint a * 256 + uint b)
      | _ \<Rightarrow> Inl StructError)"

definition unpack_h :: "bytes \<Rightarrow> exn + int" where
  "unpack_h bs =
     (case bs of
        [a, b] \<Rightarrow>
          (let u = uint a * 256 + uint b in Inr (if u < 0x8000 then u else u - 0x10000))
      | _ \<Rightarrow> Inl StructError)"

definition unpack_i :: "bytes \<Rightarrow> exn + int" where
  "unpack_i bs =
     (case bs of
        [a, b, c, d] \<Rightarrow>
          (let u = uint a * 0x1000000 + uint b * 0x10000 + uint c * 0x100 + uint d
           in Inr (if u < 0x80000000 then u else u - 0x100000000))
      | _ \<Rightarrow> Inl StructError)"

section \<open>Checksum: crc16\_ccitt\<close>

text \<open>The inner loop \<open>for _ in range(8)\<close>, by the number of rounds still to run.\<close>

fun crc_rounds :: "nat \<Rightarrow> int \<Rightarrow> int" where
  "crc_rounds 0 crc = crc"
| "crc_rounds (Suc n) crc =
     crc_rounds n
       ((if crc AND 0x8000 \<noteq> 0 then push_bit 1 crc XOR 0x1021 else push_bit 1 crc)
        AND 0xFFFF)"

text \<open>The outer loop \<open>for byte in data\<close>, with the register as accumulator.\<close>

fun crc_bytes :: "int \<Rightarrow> bytes \<Rightarrow> int" where
  "crc_bytes crc [] = crc"
| "crc_bytes crc (byte # data) =
     crc_bytes (crc_rounds 8 (crc XOR push_bit 8 (uint byte))) data"

definition crc16_ccitt :: "bytes \<Rightarrow> int" where
  "crc16_ccitt data = crc_bytes 0xFFFF data"

text \<open>The reference register machine of CRC-16/CCITT-FALSE, written from the
  specification's words on a 16-bit register: initial value \<open>0xFFFF\<close>; each input byte is
  XORed into the high byte; then eight rounds, each shifting left by one bit and, when the
  high bit was set, XORing the polynomial \<open>0x1021\<close>; no reflection, no final XOR.\<close>

definition ref_round :: "16 word \<Rightarrow> 16 word" where
  "ref_round r = (if bit r 15 then push_bit 1 r XOR 0x1021 else push_bit 1 r)"

definition ref_byte :: "16 word \<Rightarrow> byte \<Rightarrow> 16 word" where
  "ref_byte r b = (ref_round ^^ 8) (r XOR push_bit 8 (ucast b))"

definition crc16_ccitt_false_ref :: "bytes \<Rightarrow> 16 word" where
  "crc16_ccitt_false_ref data = foldl ref_byte 0xFFFF data"

section \<open>Frame codec: encode\_frame and decode\_frame\<close>

text \<open>Sequencing of statements that may raise: the first exception raised ends the call.\<close>

definition bind_exn :: "exn + 'a \<Rightarrow> ('a \<Rightarrow> exn + 'b) \<Rightarrow> exn + 'b" where
  "bind_exn m f = (case m of Inl e \<Rightarrow> Inl e | Inr v \<Rightarrow> f v)"

definition encode_frame :: "int \<Rightarrow> bytes \<Rightarrow> exn + bytes" where
  "encode_frame command_id payload =
     (if len payload > PROTO_MAX_PAYLOAD then Inl (ValueError ''Payload too large'')
      else
        let length' = len payload in
        bind_exn (byte_of_int command_id) (\<lambda>cmd.
        bind_exn (pack_H length') (\<lambda>lenb.
        let crc_data = [cmd] @ lenb @ payload;
            crc = crc16_ccitt crc_data
        in
        bind_exn (byte_of_int PROTO_START_BYTE) (\<lambda>start.
        bind_exn (pack_H crc) (\<lambda>crcb.
        Inr ([start] @ [cmd] @ lenb @ payload @ crcb))))))"

definition decode_frame :: "bytes \<Rightarrow> exn + (int \<times> bytes) option" where
  "decode_frame data =
     (if len data < 6 then Inr None
      else
        bind_exn (py_index data 0) (\<lambda>b0.
        if b0 \<noteq> PROTO_START_BYTE then Inr None
        else
          bind_exn (py_index data 1) (\<lambda>command_id.
          bind_exn (unpack_H (py_slice data 2 4)) (\<lambda>length'.
          if len data < 6 + length' then Inr None
          else
            let payload = py_slice data 4 (4 + length') in
            bind_exn (unpack_H (py_slice data (4 + length') (6 + length'))) (\<lambda>received_crc.
            let crc_data = py_slice data 1 (4 + length');
                calculated_crc = crc16_ccitt crc_data
            in if received_crc \<noteq> calculated_crc then Inr None
               else Inr (Some (command_id, payload)))))))"

section \<open>Text: Python's UTF-8 codec\<close>

text \<open>
  A Python \<open>str\<close> is a sequence of Unicode code points, each below \<open>0x110000\<close>
  (\<open>str_ok\<close>). \<open>value.encode('utf-8')\<close> writes one to four bytes per code point and
  raises UnicodeEncodeError on a surrogate (\<open>0xD800..0xDFFF\<close>).
  \<open>bs.decode('utf-8', errors='replace')\<close> never raises: every well-formed sequence gives
  its code point and every maximal ill-formed part gives one replacement character
  \<open>0xFFFD\<close>, after which decoding resumes at the first byte not consumed.
\<close>

type_synonym pystr = "nat list"

definition str_ok :: "pystr \<Rightarrow> bool" where
  "str_ok s = list_all (\<lambda>c. c < 0x110000) s"

definition encode_cp :: "nat \<Rightarrow> exn + bytes" where
  "encode_cp c =
     (if c < 0x80 then Inr [of_nat c]
      else if c < 0x800 then Inr [of_nat (0xC0 + c div 64), of_nat (0x80 + c mod 64)]
      else if c < 0x10000 then
        (if 0xD800 \<le> c \<and> c \<le> 0xDFFF then Inl UnicodeEncodeError
         else Inr [of_nat (0xE0 + c div 4096), of_nat (0x80 + c div 64 mod 64),
                   of_nat (0x80 + c mod 64)])
      else Inr [of_nat (0xF0 + c div 262144), of_nat (0x80 + c div 4096 mod 64),
                of_nat (0x80 + c div 64 mod 64), of_nat (0x80 + c mod 64)])"

fun utf8_encode :: "pystr \<Rightarrow> exn + bytes" where
  "utf8_encode [] = Inr []"
| "utf8_encode (c # cs) =
     bind_exn (encode_cp c) (\<lambda>bs. bind_exn (utf8_encode cs) (\<lambda>rest. Inr (bs @ rest)))"

text \<open>A surrogate code point has no UTF-8 encoding; a text that holds one is the only
  text \<open>encode\<close> raises on.\<close>

definition is_surrogate :: "nat \<Rightarrow> bool" where
  "is_surrogate c = (0xD800 \<le> c \<and> c \<le> 0xDFFF)"

definition has_surrogate :: "pystr \<Rightarrow> bool" where
  "has_surrogate s = list_ex is_surrogate s"

definition is_cont :: "byte \<Rightarrow> bool" where
  "is_cont b = (0x80 \<le> unat b \<and> unat b \<le> 0xBF)"

text \<open>The second byte of a three-byte and of a four-byte sequence: the ranges that
  exclude overlong forms, surrogates and code points past \<open>0x10FFFF\<close>.\<close>

definition second_of_3 :: "byte \<Rightarrow> byte \<Rightarrow> bool" where
  "second_of_3 b0 b1 =
     (if unat b0 = 0xE0 then 0xA0 \<le> unat b1 \<and> unat b1 \<le> 0xBF
      else if unat b0 = 0xED then 0x80 \<le> unat b1 \<and> unat b1 \<le> 0x9F
      else is_cont b1)"

definition second_of_4 :: "byte \<Rightarrow> byte \<Rightarrow> bool" where
  "second_of_4 b0 b1 =
     (if unat b0 = 0xF0 then 0x90 \<le> unat b1 \<and> unat b1 \<le> 0xBF
      else if unat b0 = 0xF4 then 0x80 \<le> unat b1 \<and> unat b1 \<le> 0x8F
      else is_cont b1)"

text \<open>One decoding step at lead byte \<open>b0\<close> followed by \<open>bs\<close>: the code point produced
  and how many bytes of \<open>bs\<close> the step consumed with the lead byte.\<close>

definition utf8_step :: "byte \<Rightarrow> bytes \<Rightarrow> nat \<times> nat" where
  "utf8_step b0 bs =
     (if unat b0 < 0x80 then (unat b0, 0)
      else if 0xC2 \<le> unat b0 \<and> unat b0 \<le> 0xDF then
        (case bs of
           [] \<Rightarrow> (0xFFFD, 0)
         | b1 # r1 \<Rightarrow>
             if is_cont b1 then ((unat b0 - 0xC0) * 64 + (unat b1 - 0x80), 1)
             else (0xFFFD, 0))
      else if 0xE0 \<le> unat b0 \<and> unat b0 \<le> 0xEF then
        (case bs of
           [] \<Rightarrow> (0xFFFD, 0)
         | b1 # r1 \<Rightarrow>
             if second_of_3 b0 b1 then
               (case r1 of
                  [] \<Rightarrow> (0xFFFD, 1)
                | b2 # r2 \<Rightarrow>
                    if is_cont b2
                    then ((unat b0 - 0xE0) * 4096 + (unat b1 - 0x80) * 64 + (unat b2 - 0x80), 2)
                    else (0xFFFD, 1))
             else (0xFFFD, 0))
      else if 0xF0 \<le> unat b0 \<and> unat b0 \<le> 0xF4 then
        (case bs of
           [] \<Rightarrow> (0xFFFD, 0)
         | b1 # r1 \<Rightarrow>
             if second_of_4 b0 b1 then
               (case r1 of
                  [] \<Rightarrow> (0xFFFD, 1)
                | b2 # r2 \<Rightarrow>
                    if is_cont b2 then
                      (case r2 of
                         [] \<Rightarrow> (0xFFFD, 2)
                       | b3 # r3 \<Rightarrow>
                           if is_cont b3
                           then ((unat b0 - 0xF0) * 262144 + (unat b1 - 0x80) * 4096
                                 + (unat b2 - 0x80) * 64 + (unat b3 - 0x80), 3)
                           else (0xFFFD, 2))
                    else (0xFFFD, 1))
             else (0xFFFD, 0))
      else (0xFFFD, 0))"

fun utf8_decode :: "bytes \<Rightarrow> pystr" where
  "utf8_decode [] = []"
| "utf8_decode (b0 # bs) =
     (case utf8_step b0 bs of (cp, k) \<Rightarrow> cp # utf8_decode (drop k bs))"

section \<open>Payload serializer: class PayloadBuilder\<close>

text \<open>The object's state is its two attributes. A method takes the state and returns what
  the call returns together with the state after it, or the exception it raised.\<close>

record PayloadBuilder =
  buffer :: bytes
  max_size :: int

definition PayloadBuilder_init :: "int \<Rightarrow> PayloadBuilder" where
  "PayloadBuilder_init m = \<lparr>buffer = [], max_size = m\<rparr>"

definition add_uint8 :: "PayloadBuilder \<Rightarrow> int \<Rightarrow> exn + (bool \<times> PayloadBuilder)" where
  "add_uint8 self value =
     (if len (buffer self) + 1 > max_size self then Inr (False, self)
      else bind_exn (byte_of_int (value AND 0xFF)) (\<lambda>b.
           Inr (True, self\<lparr>buffer := buffer self @ [b]\<rparr>)))"

definition add_int16 :: "PayloadBuilder \<Rightarrow> int \<Rightarrow> exn + (bool \<times> PayloadBuilder)" where
  "add_int16 self value =
     (if len (buffer self) + 2 > max_size self then Inr (False, self)
      else bind_exn (pack_h value) (\<lambda>bs.
           Inr (True, self\<lparr>buffer := buffer self @ bs\<rparr>)))"

definition add_uint16 :: "PayloadBuilder \<Rightarrow> int \<Rightarrow> exn + (bool \<times> PayloadBuilder)" where
  "add_uint16 self value =
     (if len (buffer self) + 2 > max_size self then Inr (False, self)
      else bind_exn (pack_H value) (\<lambda>bs.
           Inr (True, self\<lparr>buffer := buffer self @ bs\<rparr>)))"

definition add_int32 :: "PayloadBuilder \<Rightarrow> int \<Rightarrow> exn + (bool \<times> PayloadBuilder)" where
  "add_int32 self value =
     (if len (buffer self) + 4 > max_size self then Inr (False, self)
      else bind_exn (pack_i value) (\<lambda>bs.
           Inr (True, self\<lparr>buffer := buffer self @ bs\<rparr>)))"

text \<open>\<open>struct.pack('>f', value)\<close> rounds a Python float to IEEE-754 single precision and
  raises OverflowError when it does not fit. Floating point is left abstract: the packing
  function \<open>pack_f\<close> is a parameter of \<open>add_float\<close>, over any type \<open>'f\<close> of floats.\<close>

definition add_float ::
  "('f \<Rightarrow> exn + bytes) \<Rightarrow> PayloadBuilder \<Rightarrow> 'f \<Rightarrow> exn + (bool \<times> PayloadBuilder)" where
  "add_float pack_f self value =
     (if len (buffer self) + 4 > max_size self then Inr (False, self)
      else bind_exn (pack_f value) (\<lambda>bs.
           Inr (True, self\<lparr>buffer := buffer self @ bs\<rparr>)))"

definition add_string :: "PayloadBuilder \<Rightarrow> pystr \<Rightarrow> exn + (bool \<times> PayloadBuilder)" where
  "add_string self value =
     bind_exn (utf8_encode value) (\<lambda>encoded.
       if len (buffer self) + 1 + len encoded > max_size self then Inr (False, self)
       else if len encoded > 255 then Inr (False, self)
       else bind_exn (byte_of_int (len encoded)) (\<lambda>n.
            Inr (True, self\<lparr>buffer := (buffer self @ [n]) @ encoded\<rparr>)))"

definition add_bytes :: "PayloadBuilder \<Rightarrow> bytes \<Rightarrow> exn + (bool \<times> PayloadBuilder)" where
  "add_bytes self data =
     (if len (buffer self) + len data > max_size self then Inr (False, self)
      else Inr (True, self\<lparr>buffer := buffer self @ data\<rparr>))"

text \<open>\<open>get_payload\<close> returns \<open>bytes(self.buffer)\<close>, an immutable copy; the second component
  is the builder's state after the call.\<close>

definition get_payload :: "PayloadBuilder \<Rightarrow> bytes \<times> PayloadBuilder" where
  "get_payload self = (buffer self, self)"

section \<open>Payload deserializer: class PayloadParser\<close>

record PayloadParser =
  parser_buffer :: bytes
  parser_position :: int

definition PayloadParser_init :: "bytes \<Rightarrow> PayloadParser" where
  "PayloadParser_init payload = \<lparr>parser_buffer = payload, parser_position = 0\<rparr>"

definition remaining :: "PayloadParser \<Rightarrow> int" where
  "remaining self = len (parser_buffer self) - parser_position self"

definition read_uint8 :: "PayloadParser \<Rightarrow> exn + (int option \<times> PayloadParser)" where
  "read_uint8 self =
     (if parser_position self + 1 > len (parser_buffer self) then Inr (None, self)
      else bind_exn (py_index (parser_buffer self) (parser_position self)) (\<lambda>value.
           Inr (Some value, self\<lparr>parser_position := parser_position self + 1\<rparr>)))"

definition read_int16 :: "PayloadParser \<Rightarrow> exn + (int option \<times> PayloadParser)" where
  "read_int16 self =
     (if parser_position self + 2 > len (parser_buffer self) then Inr (None, self)
      else bind_exn
             (unpack_h (py_slice (parser_buffer self) (parser_position self)
                          (parser_position self + 2))) (\<lambda>value.
           Inr (Some value, self\<lparr>parser_position := parser_position self + 2\<rparr>)))"

definition read_uint16 :: "PayloadParser \<Rightarrow> exn + (int option \<times> PayloadParser)" where
  "read_uint16 self =
     (if parser_position self + 2 > len (parser_buffer self) then Inr (None, self)
      else bind_exn
             (unpack_H (py_slice (parser_buffer self) (parser_position self)
                          (parser_position self + 2))) (\<lambda>value.
           Inr (Some value, self\<lparr>parser_position := parser_position self + 2\<rparr>)))"

definition read_int32 :: "PayloadParser \<Rightarrow> exn + (int option \<times> PayloadParser)" where
  "read_int32 self =
     (if parser_position self + 4 > len (parser_buffer self) then Inr (None, self)
      else bind_exn
             (unpack_i (py_slice (parser_buffer self) (parser_position self)
                          (parser_position self + 4))) (\<lambda>value.
           Inr (Some value, self\<lparr>parser_position := parser_position self + 4\<rparr>)))"

text \<open>\<open>struct.unpack('>f', ...)\<close> is a parameter \<open>unpack_f\<close>, as \<open>pack_f\<close> above.\<close>

definition read_float ::
  "(bytes \<Rightarrow> exn + 'f) \<Rightarrow> PayloadParser \<Rightarrow> exn + ('f option \<times> PayloadParser)" where
  "read_float unpack_f self =
     (if parser_position self + 4 > len (parser_buffer self) then Inr (None, self)
      else bind_exn
             (unpack_f (py_slice (parser_buffer self) (parser_position self)
                          (parser_position self + 4))) (\<lambda>value.
           Inr (Some value, self\<lparr>parser_position := parser_position self + 4\<rparr>)))"

text \<open>\<open>read_string\<close> calls \<open>self.read_uint8()\<close> first and goes on from the state that call
  left.\<close>

definition read_string :: "PayloadParser \<Rightarrow> exn + (pystr option \<times> PayloadParser)" where
  "read_string self =
     bind_exn (read_uint8 self) (\<lambda>(length', self1).
       case length' of
         None \<Rightarrow> Inr (None, self1)
       | Some n \<Rightarrow>
           if parser_position self1 + n > len (parser_buffer self1) then Inr (None, self1)
           else
             let value = utf8_decode (py_slice (parser_buffer self1) (parser_position self1)
                                        (parser_position self1 + n))
             in Inr (Some value, self1\<lparr>parser_position := parser_position self1 + n\<rparr>))"

definition read_bytes :: "PayloadParser \<Rightarrow> int \<Rightarrow> exn + (bytes option \<times> PayloadParser)" where
  "read_bytes self length' =
     (if parser_position self + length' > len (parser_buffer self) then Inr (None, self)
      else
        let value = py_slice (parser_buffer self) (parser_position self)
                      (parser_position self + length')
        in Inr (Some value, self\<lparr>parser_position := parser_position self + length'\<rparr>))"

section \<open>Response parser: parse\_encoder\_data\<close>

text \<open>The dictionary the parser returns has the three keys of this record.\<close>

record encoder_data =
  position :: int
  velocity :: int
  button_pressed :: bool

definition parse_encoder_data :: "bytes \<Rightarrow> exn + encoder_data option" where
  "parse_encoder_data payload =
     (let parser = PayloadParser_init payload in
      bind_exn (read_int16 parser) (\<lambda>(position', parser1).
      bind_exn (read_uint8 parser1) (\<lambda>(velocity', parser2).
      bind_exn (read_uint8 parser2) (\<lambda>(button, parser3).
      case position' of
        None \<Rightarrow> Inr None
      | Some p \<Rightarrow>
          Inr (Some \<lparr>position = p,
                     velocity = (case velocity' of Some v \<Rightarrow> v | None \<Rightarrow> 0),
                     button_pressed = (case button of Some b \<Rightarrow> b = 1 | None \<Rightarrow> False)\<rparr>)))))"

text \<open>The value of a big-endian signed 16-bit field with bytes \<open>a\<close>, \<open>b\<close>.\<close>

definition int16_be :: "byte \<Rightarrow> byte \<Rightarrow> int" where
  "int16_be a b =
     (let u = uint a * 256 + uint b in if u < 0x8000 then u else u - 0x10000)"

section \<open>The frame layout in the specification's words\<close>

text \<open>The wire format: offset 0 the start marker, 1 the command id, 2..3 the payload
  length (big-endian), 4.. the payload, then the checksum (big-endian) over the bytes
  \<open>[1 .. 4 + length)\<close>.\<close>

definition declared_length :: "bytes \<Rightarrow> nat" where
  "declared_length data = unat (data ! 2) * 256 + unat (data ! 3)"

definition checksum_field :: "bytes \<Rightarrow> int" where
  "checksum_field data =
     uint (data ! (4 + declared_length data)) * 256 + uint (data ! (5 + declared_length data))"

definition malformed_frame :: "bytes \<Rightarrow> bool" where
  "malformed_frame data =
     (length data < 6 \<or> data ! 0 \<noteq> 0xAA \<or> length data < 6 + declared_length data \<or>
      crc16_ccitt (take (3 + declared_length data) (drop 1 data)) \<noteq> checksum_field data)"

section \<open>Checksum properties\<close>

lemma crc_high_bit_test: "(uint (w :: 16 word) AND 0x8000 \<noteq> 0) = bit w 15"
proof -
  have "(0x8000 :: int) = 2 ^ 15" by simp
  then have "(uint w AND 0x8000 = 0) = (\<not> bit (uint w) 15)"
    by (simp only: and_exp_eq_0_iff_not_bit)
  then show ?thesis by (simp add: bit_uint_iff)
qed

lemma crc_mask_16: "(x :: int) AND 0xFFFF = take_bit 16 x"
proof -
  have "(0xFFFF :: int) = mask 16" by (simp add: mask_eq_exp_minus_1)
  then show ?thesis by (simp only: take_bit_eq_mask)
qed

lemma uint_polynomial: "uint (0x1021 :: 16 word) = 0x1021"
  by simp

lemma crc_round_register:
  "((if uint w AND 0x8000 \<noteq> 0 then push_bit 1 (uint w) XOR 0x1021 else push_bit 1 (uint w))
      AND 0xFFFF) = uint (ref_round w)"
proof -
  have shifted: "uint (push_bit 1 w) = take_bit 16 (push_bit 1 (uint w))"
    by (simp only: unsigned_push_bit_eq) simp
  have xored: "uint (push_bit 1 w XOR 0x1021) = take_bit 16 (push_bit 1 (uint w) XOR 0x1021)"
    by (simp only: unsigned_xor_eq shifted uint_polynomial take_bit_xor) simp
  show ?thesis
    unfolding crc_high_bit_test crc_mask_16 ref_round_def
    using shifted xored by (cases "bit w 15") simp_all
qed

lemma crc_rounds_register: "crc_rounds n (uint w) = uint ((ref_round ^^ n) w)"
proof (induction n arbitrary: w)
  case 0
  show ?case by simp
next
  case (Suc n)
  show ?case
    by (simp only: crc_rounds.simps crc_round_register Suc.IH funpow_Suc_right o_apply)
qed

lemma crc_byte_into_high:
  "uint r XOR push_bit 8 (uint (b :: byte)) = uint ((r :: 16 word) XOR push_bit 8 (ucast b))"
proof -
  have lt: "uint b < 256" using uint_lt2p [of b] by simp
  have u: "uint (ucast b :: 16 word) = uint b"
    using lt by (simp add: unsigned_ucast_eq take_bit_int_eq_self_iff)
  have "push_bit 8 (uint b) < 65536" using lt by (simp add: push_bit_eq_mult)
  then have p: "uint (push_bit 8 (ucast b :: 16 word)) = push_bit 8 (uint b)"
    by (simp add: unsigned_push_bit_eq u take_bit_int_eq_self_iff)
  show ?thesis by (simp only: unsigned_xor_eq p)
qed

lemma crc_bytes_register: "crc_bytes (uint r) data = uint (foldl ref_byte r data)"
proof (induction data arbitrary: r)
  case Nil
  show ?case by simp
next
  case (Cons b data)
  have "crc_bytes (uint r) (b # data) = crc_bytes (uint (ref_byte r b)) data"
    by (simp only: crc_bytes.simps crc_byte_into_high crc_rounds_register ref_byte_def)
  then show ?case by (simp only: Cons.IH foldl_Cons)
qed

lemma crc16_ccitt_register: "crc16_ccitt data = uint (foldl ref_byte 0xFFFF data)"
proof -
  have "(0xFFFF :: int) = uint (0xFFFF :: 16 word)" by simp
  then show ?thesis by (simp only: crc16_ccitt_def crc_bytes_register)
qed

lemma crc16_ccitt_range: "0 \<le> crc16_ccitt data \<and> crc16_ccitt data < 65536"
  using uint_lt2p [of "foldl ref_byte (0xFFFF :: 16 word) data"]
  by (simp add: crc16_ccitt_register)

text \<open>
  Claim C3. \<open>crc16_ccitt\<close> is a total function of its input bytes alone; on every byte
  sequence it computes the value of the CRC-16/CCITT-FALSE register machine (initial
  register \<open>0xFFFF\<close>, byte XORed into the high byte, eight shift rounds with polynomial
  \<open>0x1021\<close>, 16-bit register, no reflection, no final XOR); on the empty sequence that is the
  initial register \<open>0xFFFF\<close>.
\<close>

theorem crc16_ccitt_is_ccitt_false:
  "crc16_ccitt data = uint (crc16_ccitt_false_ref data) \<and> crc16_ccitt [] = 0xFFFF"
  by (simp add: crc16_ccitt_register crc16_ccitt_false_ref_def)

theorem crc16_ccitt_is_ccitt_false_check_value:
  "uint (crc16_ccitt_false_ref [0x31, 0x32, 0x33, 0x34, 0x35, 0x36, 0x37, 0x38, 0x39]) = 0x29B1"
proof -
  have "crc16_ccitt [0x31, 0x32, 0x33, 0x34, 0x35, 0x36, 0x37, 0x38, 0x39] = 0x29B1"
    by code_simp
  then show ?thesis
    using crc16_ccitt_is_ccitt_false [of "[0x31, 0x32, 0x33, 0x34, 0x35, 0x36, 0x37, 0x38, 0x39]"]
    by simp
qed

section \<open>Frame codec properties\<close>

lemma py_slice_nat: "py_slice xs (int i) (int j) = take (j - i) (drop i xs)"
proof (cases "i \<le> length xs")
  case True
  then show ?thesis
    by (cases "j \<le> length xs") (simp_all add: py_slice_def slice_bound_def len_def min_def nat_diff_distrib')
next
  case False
  then show ?thesis
    by (simp add: py_slice_def slice_bound_def len_def min_def)
qed

lemma take2_drop: "i + 2 \<le> length xs \<Longrightarrow> take 2 (drop i xs) = [xs ! i, xs ! (i + 1)]"
proof -
  assume a: "i + 2 \<le> length xs"
  then have "drop i xs = xs ! i # xs ! (i + 1) # drop (i + 2) xs"
    by (simp add: Cons_nth_drop_Suc)
  then show ?thesis by simp
qed

lemma unpack_H_pair: "unpack_H [a, b] = Inr (uint a * 256 + uint b)"
  by (simp add: unpack_H_def)

lemma start_byte_test: "(uint (b :: byte) \<noteq> PROTO_START_BYTE) = (b \<noteq> 0xAA)"
proof -
  have "uint (0xAA :: byte) = 0xAA" by simp
  then have "(uint b = 0xAA) = (b = 0xAA)" by (metis word_uint_eq_iff)
  then show ?thesis by (simp add: PROTO_START_BYTE_def)
qed

lemma decode_frame_long:
  assumes long: "6 \<le> length data"
  shows "decode_frame data =
     (if data ! 0 \<noteq> 0xAA then Inr None
      else if length data < 6 + declared_length data then Inr None
      else if crc16_ccitt (take (3 + declared_length data) (drop 1 data)) \<noteq> checksum_field data
      then Inr None
      else Inr (Some (uint (data ! 1), take (declared_length data) (drop 4 data))))"
proof -
  let ?L = "declared_length data"
  have i0: "py_index data 0 = Inr (uint (data ! 0))"
    using long by (cases data) (simp_all add: py_index_def len_def)
  have i1: "py_index data 1 = Inr (uint (data ! 1))"
    using long by (simp add: py_index_def len_def)
  have "py_slice data 2 4 = [data ! 2, data ! 3]"
    using long py_slice_nat [of data 2 4] take2_drop [of 2 data] by simp
  then have l: "unpack_H (py_slice data 2 4) = Inr (int ?L)"
    by (simp add: unpack_H_pair declared_length_def)
  have lenlt: "(len data < 6 + int ?L) = (length data < 6 + ?L)"
    unfolding len_def by linarith
  have pl: "py_slice data 4 (4 + int ?L) = take ?L (drop 4 data)"
    using py_slice_nat [of data 4 "4 + ?L"] by simp
  have cd: "py_slice data 1 (4 + int ?L) = take (3 + ?L) (drop 1 data)"
    using py_slice_nat [of data 1 "4 + ?L"] by simp
  have cs: "unpack_H (py_slice data (4 + int ?L) (6 + int ?L)) = Inr (checksum_field data)"
    if "\<not> length data < 6 + ?L"
  proof -
    have "py_slice data (4 + int ?L) (6 + int ?L) = take 2 (drop (4 + ?L) data)"
      using py_slice_nat [of data "4 + ?L" "6 + ?L"] by simp
    also have "\<dots> = [data ! (4 + ?L), data ! (5 + ?L)]"
      using that take2_drop [of "4 + ?L" data] by (simp add: add.commute)
    finally show ?thesis by (simp add: unpack_H_pair checksum_field_def)
  qed
  have nshort: "\<not> len data < 6" using long by (simp add: len_def)
  show ?thesis
    unfolding decode_frame_def
    by (simp only: nshort if_False i0 i1 l bind_exn_def sum.case start_byte_test lenlt pl cd Let_def)
       (simp add: cs)
qed


lemma decode_frame_short: "length data < 6 \<Longrightarrow> decode_frame data = Inr None"
  by (simp add: decode_frame_def len_def)

lemma decode_frame_char:
  "decode_frame data =
     Inr (if malformed_frame data then None
          else Some (uint (data ! 1), take (declared_length data) (drop 4 data)))"
proof (cases "length data < 6")
  case True
  then show ?thesis by (simp add: decode_frame_short malformed_frame_def)
next
  case False
  then have "6 \<le> length data" by simp
  from decode_frame_long [OF this] False show ?thesis
    by (simp add: malformed_frame_def)
qed

text \<open>
  Claim C2. \<open>decode_frame\<close> never raises: on every byte sequence it returns. It returns
  \<open>None\<close> exactly when the input is malformed (shorter than 6 bytes, or first byte not
  \<open>0xAA\<close>, or 6 plus the declared length exceeds the buffer length, or the CRC-16 of the
  bytes \<open>[1 .. 4 + length)\<close> differs from the two big-endian checksum bytes that follow
  the payload), and in every other case the pair of the command id and the payload.
\<close>

theorem decode_frame_total_none_iff_malformed:
  "(\<exists>r. decode_frame data = Inr r) \<and>
   (decode_frame data = Inr None \<longleftrightarrow> malformed_frame data) \<and>
   (\<not> malformed_frame data \<longrightarrow>
      decode_frame data = Inr (Some (uint (data ! 1), take (declared_length data) (drop 4 data))))"
  by (simp add: decode_frame_char)

theorem decode_frame_rejects_corrupted_led_blink:
  "malformed_frame [0xAA, 0x11, 0x00, 0x02, 0x01, 0xF5, 0x4D, 0xCD] \<and>
   decode_frame [0xAA, 0x11, 0x00, 0x02, 0x01, 0xF5, 0x4D, 0xCD] = Inr None"
proof -
  have m: "malformed_frame [0xAA, 0x11, 0x00, 0x02, 0x01, 0xF5, 0x4D, 0xCD]"
    by code_simp
  with decode_frame_total_none_iff_malformed [of "[0xAA, 0x11, 0x00, 0x02, 0x01, 0xF5, 0x4D, 0xCD]"]
  show ?thesis by simp
qed

lemma uint_hi_lo:
  assumes "0 \<le> v" "v < 65536"
  shows "uint (word_of_int (v div 256) :: byte) * 256 + uint (word_of_int v :: byte) = v"
proof -
  have "v div 256 < 256" using assms by simp
  moreover have "0 \<le> v div 256" using assms by simp
  ultimately have "uint (word_of_int (v div 256) :: byte) = v div 256"
    by (simp add: uint_word_of_int)
  moreover have "uint (word_of_int v :: byte) = v mod 256"
    by (simp add: uint_word_of_int)
  ultimately show ?thesis by simp
qed

lemma unat_hi_lo:
  assumes "n < 65536"
  shows "unat (word_of_int (int n div 256) :: byte) * 256 + unat (word_of_int (int n) :: byte) = n"
proof -
  have "int (unat (word_of_int (int n div 256) :: byte) * 256 + unat (word_of_int (int n) :: byte))
      = uint (word_of_int (int n div 256) :: byte) * 256 + uint (word_of_int (int n) :: byte)"
    by simp
  also have "\<dots> = int n" using assms uint_hi_lo [of "int n"] by simp
  finally show ?thesis by (simp only: of_nat_eq_iff)
qed

lemma encode_frame_ok:
  assumes cid: "0 \<le> command_id" "command_id < 256" and small: "length payload \<le> 1024"
  shows "encode_frame command_id payload =
    Inr ([0xAA, word_of_int command_id,
          word_of_int (len payload div 256), word_of_int (len payload)] @ payload @
         [word_of_int (crc16_ccitt ([word_of_int command_id, word_of_int (len payload div 256),
              word_of_int (len payload)] @ payload) div 256),
          word_of_int (crc16_ccitt ([word_of_int command_id, word_of_int (len payload div 256),
              word_of_int (len payload)] @ payload))])"
proof -
  have l: "pack_H (len payload) = Inr [word_of_int (len payload div 256), word_of_int (len payload)]"
    using small by (simp add: pack_H_def len_def)
  have c: "pack_H (crc16_ccitt xs) = Inr [word_of_int (crc16_ccitt xs div 256), word_of_int (crc16_ccitt xs)]" for xs
    using crc16_ccitt_range [of xs] by (simp add: pack_H_def)
  have b: "byte_of_int command_id = Inr (word_of_int command_id)"
    using cid by (simp add: byte_of_int_def)
  have s: "byte_of_int PROTO_START_BYTE = Inr 0xAA"
    by (simp add: byte_of_int_def PROTO_START_BYTE_def)
  have ns: "\<not> len payload > PROTO_MAX_PAYLOAD"
    using small by (simp add: len_def PROTO_MAX_PAYLOAD_def)
  show ?thesis
    unfolding encode_frame_def
    by (simp only: ns if_False Let_def b l bind_exn_def sum.case c s) simp
qed

lemma take_prefix_exact: "length xs = k \<Longrightarrow> take k (xs @ ys) = xs"
  by simp

lemma frame_layout:
  assumes "length pre = 4"
  shows "(pre @ payload @ [x, y]) ! (4 + length payload) = x"
    and "(pre @ payload @ [x, y]) ! (5 + length payload) = y"
  using assms nth_append_length_plus [of "pre @ payload" "[x, y]" 0]
    nth_append_length_plus [of "pre @ payload" "[x, y]" 1]
  by (simp_all add: add.commute)

text \<open>
  Claim C1. For every command id that fits in one byte and every payload of at most 1024
  bytes, \<open>encode_frame\<close> returns a frame and \<open>decode_frame\<close> of that frame returns
  exactly the original pair.
\<close>

theorem decode_encode_roundtrip:
  assumes cid: "0 \<le> command_id" "command_id < 256" and small: "length payload \<le> 1024"
  shows "\<exists>frame. encode_frame command_id payload = Inr frame \<and>
           decode_frame frame = Inr (Some (command_id, payload))"
proof -
  let ?n = "length payload"
  let ?hdr = "[word_of_int command_id, word_of_int (len payload div 256), word_of_int (len payload)] :: bytes"
  let ?crc = "crc16_ccitt (?hdr @ payload)"
  let ?frame = "[0xAA] @ ?hdr @ payload @ [word_of_int (?crc div 256), word_of_int ?crc]"
  have enc: "encode_frame command_id payload = Inr ?frame"
    using encode_frame_ok [OF assms] by simp
  have dl: "declared_length ?frame = ?n"
    using small unat_hi_lo [of ?n] by (simp add: declared_length_def len_def)
  have "checksum_field ?frame = uint (word_of_int (?crc div 256) :: byte) * 256 + uint (word_of_int ?crc :: byte)"
    unfolding checksum_field_def dl
    using frame_layout [of "0xAA # ?hdr" payload "word_of_int (?crc div 256)" "word_of_int ?crc"]
    by simp
  then have cf: "checksum_field ?frame = ?crc"
    using crc16_ccitt_range [of "?hdr @ payload"] uint_hi_lo [of ?crc] by simp
  have "take (3 + ?n) ((?hdr @ payload) @ [word_of_int (?crc div 256), word_of_int ?crc])
      = ?hdr @ payload"
    by (rule take_prefix_exact) simp
  then have cd: "take (3 + ?n) (drop 1 ?frame) = ?hdr @ payload" by simp
  have pl: "take ?n (drop 4 ?frame) = payload" by simp
  have c1: "uint (?frame ! 1) = command_id"
    using cid by (simp add: uint_word_of_int)
  have nm: "\<not> malformed_frame ?frame"
    unfolding malformed_frame_def dl cf cd by simp
  have "decode_frame ?frame = Inr (Some (command_id, payload))"
    unfolding decode_frame_char by (simp only: nm if_False dl pl c1)
  with enc show ?thesis by blast
qed

theorem decode_encode_roundtrip_led_blink:
  "encode_frame 0x11 [0x01, 0xF4] = Inr [0xAA, 0x11, 0x00, 0x02, 0x01, 0xF4, 0x4D, 0xCD] \<and>
   decode_frame [0xAA, 0x11, 0x00, 0x02, 0x01, 0xF4, 0x4D, 0xCD] = Inr (Some (0x11, [0x01, 0xF4]))"
proof -
  have crc: "crc16_ccitt [0x11, 0x00, 0x02, 0x01, 0xF4] = 0x4DCD"
    by code_simp
  have e: "encode_frame 0x11 [0x01, 0xF4] = Inr [0xAA, 0x11, 0x00, 0x02, 0x01, 0xF4, 0x4D, 0xCD]"
    using encode_frame_ok [of "0x11" "[0x01, 0xF4]"] by (simp add: len_def crc)
  have "(0::int) \<le> 0x11" "(0x11::int) < 256" "length [0x01, 0xF4 :: byte] \<le> 1024"
    by simp_all
  from decode_encode_roundtrip [OF this] e show ?thesis by simp
qed

text \<open>
  Claim C10. A buffer that decodes to a pair still decodes to the same pair after any
  bytes are appended behind its checksum: the extra bytes are neither checked nor a
  reason to reject.
\<close>

theorem decode_frame_ignores_trailing_bytes:
  assumes "decode_frame data = Inr (Some r)"
  shows "decode_frame (data @ extra) = Inr (Some r)"
proof -
  let ?L = "declared_length data"
  from assms have nm: "\<not> malformed_frame data"
    and r: "r = (uint (data ! 1), take ?L (drop 4 data))"
    by (auto simp: decode_frame_char split: if_splits)
  from nm have long: "6 + ?L \<le> length data" and start: "data ! 0 = 0xAA"
    and crc: "crc16_ccitt (take (3 + ?L) (drop 1 data)) = checksum_field data"
    by (auto simp: malformed_frame_def)
  from long have ne: "data \<noteq> []" by auto
  have dl: "declared_length (data @ extra) = ?L"
    using long by (simp add: declared_length_def nth_append)
  have cf: "checksum_field (data @ extra) = checksum_field data"
    using long by (simp add: checksum_field_def dl nth_append)
  have "\<not> malformed_frame (data @ extra)"
    using long start crc ne by (simp add: malformed_frame_def dl cf nth_append)
  then show ?thesis
    using long ne by (simp add: decode_frame_char dl r nth_append)
qed

theorem decode_frame_ignores_trailing_bytes_ping:
  "decode_frame [0xAA, 0x01, 0x00, 0x00, 0xFB, 0xAC] = Inr (Some (1, [])) \<and>
   decode_frame ([0xAA, 0x01, 0x00, 0x00, 0xFB, 0xAC] @ [0xDE, 0xAD, 0xBE]) = Inr (Some (1, []))"
proof -
  have d: "decode_frame [0xAA, 0x01, 0x00, 0x00, 0xFB, 0xAC] = Inr (Some (1, []))"
    by code_simp
  from decode_frame_ignores_trailing_bytes [OF d] d show ?thesis by simp
qed

text \<open>
  Claim C4, as stated: an oversized payload is reported by \<open>encode_frame\<close> as a failure value
  rather than by raising an exception. It fails: on 1025 zero bytes the call raises
  ValueError.
\<close>

theorem encode_frame_raises_on_1025_bytes:
  "encode_frame 1 (replicate 1025 0) = Inl (ValueError ''Payload too large'')"
  by (simp add: encode_frame_def len_def PROTO_MAX_PAYLOAD_def)

text \<open>
  Claim C4, amended. For every command id and every payload longer than 1024 bytes,
  \<open>encode_frame\<close> raises ValueError (payload too large) to its caller: it returns no frame,
  truncated or otherwise.
\<close>

theorem encode_frame_oversized_raises:
  "1024 < length payload \<Longrightarrow>
     encode_frame command_id payload = Inl (ValueError ''Payload too large'')"
  by (simp add: encode_frame_def len_def PROTO_MAX_PAYLOAD_def)

theorem encode_frame_oversized_raises_2000:
  "1024 < length (replicate 2000 (7 :: byte)) \<and>
   encode_frame 0x31 (replicate 2000 7) = Inl (ValueError ''Payload too large'')"
  using encode_frame_oversized_raises [of "replicate 2000 7" "0x31"] by simp

section \<open>UTF-8 round trip\<close>

lemma unat_byte_of_nat: "n < 256 \<Longrightarrow> unat (of_nat n :: byte) = n"
  by (simp add: unat_of_nat)

lemma utf8_step_1: "unat b0 < 0x80 \<Longrightarrow> utf8_step b0 rest = (unat b0, 0)"
  by (simp add: utf8_step_def)

lemma utf8_step_2:
  assumes "unat b0 = 0xC0 + h" "unat b1 = 0x80 + l" "2 \<le> h" "h < 32" "l < 64"
  shows "utf8_step b0 (b1 # rest) = (h * 64 + l, 1)"
  using assms by (simp add: utf8_step_def is_cont_def)

lemma utf8_step_3:
  assumes "unat b0 = 0xE0 + h" "unat b1 = 0x80 + m" "unat b2 = 0x80 + l"
    and "h < 16" "m < 64" "l < 64"
    and "h = 0 \<longrightarrow> 32 \<le> m" "h = 13 \<longrightarrow> m < 32"
  shows "utf8_step b0 (b1 # b2 # rest) = (h * 4096 + m * 64 + l, 2)"
  using assms by (auto simp add: utf8_step_def is_cont_def second_of_3_def)

lemma utf8_step_4:
  assumes "unat b0 = 0xF0 + h" "unat b1 = 0x80 + m" "unat b2 = 0x80 + k" "unat b3 = 0x80 + l"
    and "h < 5" "m < 64" "k < 64" "l < 64"
    and "h = 0 \<longrightarrow> 16 \<le> m" "h = 4 \<longrightarrow> m < 16"
  shows "utf8_step b0 (b1 # b2 # b3 # rest) = (h * 262144 + m * 4096 + k * 64 + l, 3)"
  using assms by (auto simp add: utf8_step_def is_cont_def second_of_4_def)

lemma encode_cp_decodes:
  assumes ok: "c < 0x110000" and enc: "encode_cp c = Inr bs"
  shows "utf8_decode (bs @ rest) = c # utf8_decode rest"
proof -
  consider (one) "c < 0x80" | (two) "0x80 \<le> c" "c < 0x800"
    | (three) "0x800 \<le> c" "c < 0x10000" | (four) "0x10000 \<le> c"
    by linarith
  then show ?thesis
  proof cases
    case one
    then have bs: "bs = [of_nat c]" using enc by (simp add: encode_cp_def)
    have "unat (of_nat c :: byte) = c" using one by (simp add: unat_byte_of_nat)
    then have "utf8_step (of_nat c) rest = (c, 0)"
      using one utf8_step_1 [of "of_nat c" rest] by simp
    then show ?thesis by (simp add: bs)
  next
    case two
    define h where "h = c div 64"
    define l where "l = c mod 64"
    have hb: "2 \<le> h" "h < 32" using two by (simp_all add: h_def)
    have lb: "l < 64" by (simp add: l_def)
    have c: "h * 64 + l = c" by (simp add: h_def l_def)
    have bs: "bs = [of_nat (0xC0 + h), of_nat (0x80 + l)]"
      using two enc by (simp add: encode_cp_def h_def l_def)
    have u0: "unat (of_nat (0xC0 + h) :: byte) = 0xC0 + h"
      using hb by (intro unat_byte_of_nat) simp
    have u1: "unat (of_nat (0x80 + l) :: byte) = 0x80 + l"
      using lb by (intro unat_byte_of_nat) simp
    have "utf8_step (of_nat (0xC0 + h)) (of_nat (0x80 + l) # rest) = (c, 1)"
      using utf8_step_2 [OF u0 u1 hb lb] by (simp only: c)
    then show ?thesis unfolding bs by (simp del: of_nat_add)
  next
    case three
    define q where "q = c div 64"
    define l where "l = c mod 64"
    define h where "h = q div 64"
    define m where "m = q mod 64"
    have ns: "\<not> (0xD800 \<le> c \<and> c \<le> 0xDFFF)"
      using three enc by (auto simp add: encode_cp_def)
    have cq: "c = q * 64 + l" by (simp add: q_def l_def)
    have qh: "q = h * 64 + m" by (simp add: h_def m_def)
    have mb: "m < 64" by (simp add: m_def)
    have lb: "l < 64" by (simp add: l_def)
    have hb: "h < 16" using three cq qh by linarith
    have c: "h * 4096 + m * 64 + l = c" using cq qh by linarith
    have lo: "h = 0 \<longrightarrow> 32 \<le> m" using three cq qh lb by auto
    have hi: "h = 13 \<longrightarrow> m < 32" using three ns cq qh mb lb by auto
    have d: "c div 4096 = h" "c div 64 mod 64 = m"
      using div_mult2_eq [of c 64 64] by (simp_all add: h_def m_def q_def)
    have bs: "bs = [of_nat (0xE0 + h), of_nat (0x80 + m), of_nat (0x80 + l)]"
      using three enc ns by (simp add: encode_cp_def d l_def)
    have u0: "unat (of_nat (0xE0 + h) :: byte) = 0xE0 + h"
      using hb by (intro unat_byte_of_nat) simp
    have u1: "unat (of_nat (0x80 + m) :: byte) = 0x80 + m"
      using mb by (intro unat_byte_of_nat) simp
    have u2: "unat (of_nat (0x80 + l) :: byte) = 0x80 + l"
      using lb by (intro unat_byte_of_nat) simp
    have "utf8_step (of_nat (0xE0 + h)) (of_nat (0x80 + m) # of_nat (0x80 + l) # rest) = (c, 2)"
      using utf8_step_3 [OF u0 u1 u2 hb mb lb lo hi] by (simp only: c)
    then show ?thesis unfolding bs by (simp del: of_nat_add)
  next
    case four
    define q where "q = c div 64"
    define l where "l = c mod 64"
    define p where "p = q div 64"
    define k where "k = q mod 64"
    define h where "h = p div 64"
    define m where "m = p mod 64"
    have cq: "c = q * 64 + l" by (simp add: q_def l_def)
    have qp: "q = p * 64 + k" by (simp add: p_def k_def)
    have ph: "p = h * 64 + m" by (simp add: h_def m_def)
    have mb: "m < 64" by (simp add: m_def)
    have kb: "k < 64" by (simp add: k_def)
    have lb: "l < 64" by (simp add: l_def)
    have hb: "h < 5" using ok cq qp ph by linarith
    have c: "h * 262144 + m * 4096 + k * 64 + l = c" using cq qp ph by linarith
    have lo: "h = 0 \<longrightarrow> 16 \<le> m" using four cq qp ph lb kb by auto
    have hi: "h = 4 \<longrightarrow> m < 16" using ok cq qp ph mb kb lb by auto
    have d1: "c div 4096 = p"
      using div_mult2_eq [of c 64 64] by (simp add: p_def q_def)
    have d: "c div 262144 = h" "c div 4096 mod 64 = m" "c div 64 mod 64 = k"
      using div_mult2_eq [of c 4096 64] by (simp_all add: d1 h_def m_def k_def q_def)
    have bs: "bs = [of_nat (0xF0 + h), of_nat (0x80 + m), of_nat (0x80 + k), of_nat (0x80 + l)]"
      using four enc by (simp add: encode_cp_def d l_def)
    have u0: "unat (of_nat (0xF0 + h) :: byte) = 0xF0 + h"
      using hb by (intro unat_byte_of_nat) simp
    have u1: "unat (of_nat (0x80 + m) :: byte) = 0x80 + m"
      using mb by (intro unat_byte_of_nat) simp
    have u2: "unat (of_nat (0x80 + k) :: byte) = 0x80 + k"
      using kb by (intro unat_byte_of_nat) simp
    have u3: "unat (of_nat (0x80 + l) :: byte) = 0x80 + l"
      using lb by (intro unat_byte_of_nat) simp
    have "utf8_step (of_nat (0xF0 + h))
            (of_nat (0x80 + m) # of_nat (0x80 + k) # of_nat (0x80 + l) # rest) = (c, 3)"
      using utf8_step_4 [OF u0 u1 u2 u3 hb mb kb lb lo hi] by (simp only: c)
    then show ?thesis unfolding bs by (simp del: of_nat_add)
  qed
qed

lemma utf8_roundtrip:
  "str_ok s \<Longrightarrow> utf8_encode s = Inr e \<Longrightarrow> utf8_decode e = s"
proof (induction s arbitrary: e)
  case Nil
  then show ?case by simp
next
  case (Cons c cs)
  from Cons.prems(2) obtain bs rest where
    bs: "encode_cp c = Inr bs" and rest: "utf8_encode cs = Inr rest" and e: "e = bs @ rest"
    by (auto simp add: bind_exn_def split: sum.splits)
  from Cons.prems(1) have c: "c < 0x110000" and cs: "str_ok cs"
    by (simp_all add: str_ok_def)
  show ?case
    unfolding e using encode_cp_decodes [OF c bs] Cons.IH [OF cs rest] by simp
qed

section \<open>Payload serializer and deserializer properties\<close>

lemma read_uint8_at:
  "0 \<le> pos \<Longrightarrow>
   read_uint8 \<lparr>parser_buffer = bs, parser_position = pos\<rparr> =
     Inr (if pos + 1 > len bs then (None, \<lparr>parser_buffer = bs, parser_position = pos\<rparr>)
          else (Some (uint (bs ! nat pos)), \<lparr>parser_buffer = bs, parser_position = pos + 1\<rparr>))"
  by (simp add: read_uint8_def py_index_def len_def bind_exn_def)

lemma py_slice_two:
  assumes "0 \<le> pos" "\<not> pos + 2 > len bs"
  shows "py_slice bs pos (pos + 2) = [bs ! nat pos, bs ! (nat pos + 1)]"
proof -
  have "py_slice bs pos (pos + 2) = py_slice bs (int (nat pos)) (int (nat pos + 2))"
    using assms by (simp add: add.commute)
  also have "\<dots> = take 2 (drop (nat pos) bs)"
    by (simp only: py_slice_nat) simp
  also have "\<dots> = [bs ! nat pos, bs ! (nat pos + 1)]"
    using assms by (intro take2_drop) (simp add: len_def)
  finally show ?thesis .
qed

lemma read_int16_at:
  "0 \<le> pos \<Longrightarrow>
   read_int16 \<lparr>parser_buffer = bs, parser_position = pos\<rparr> =
     Inr (if pos + 2 > len bs then (None, \<lparr>parser_buffer = bs, parser_position = pos\<rparr>)
          else (Some (int16_be (bs ! nat pos) (bs ! (nat pos + 1))),
                \<lparr>parser_buffer = bs, parser_position = pos + 2\<rparr>))"
  by (simp add: read_int16_def py_slice_two unpack_h_def bind_exn_def int16_be_def Let_def)

text \<open>
  Claim C8. \<open>parse_encoder_data\<close> never raises and returns \<open>None\<close> exactly when the
  leading int16 position cannot be read (fewer than two bytes). Otherwise it returns the
  record: the velocity is the third byte, or 0 when there is none; \<open>button_pressed\<close> holds
  iff there is a fourth byte and it equals 1, so a missing button byte gives \<open>False\<close>.
\<close>

theorem parse_encoder_data_defaults:
  "parse_encoder_data payload =
     Inr (if length payload < 2 then None
          else Some \<lparr>position = int16_be (payload ! 0) (payload ! 1),
                     velocity = (if length payload < 3 then 0 else uint (payload ! 2)),
                     button_pressed = (\<not> length payload < 4 \<and> payload ! 3 = 1)\<rparr>)"
proof -
  have one: "(uint (b :: byte) = 1) = (b = 1)" for b
    by (metis uint_1_eq word_uint_eq_iff)
  show ?thesis
    by (simp add: parse_encoder_data_def PayloadParser_init_def read_int16_at read_uint8_at
        bind_exn_def len_def one)
qed

theorem parse_encoder_data_defaults_scenario:
  "parse_encoder_data [0x00, 0x2A, 0x05, 0x01] =
     Inr (Some \<lparr>position = 42, velocity = 5, button_pressed = True\<rparr>) \<and>
   parse_encoder_data [0xFF, 0xFE, 0x05] =
     Inr (Some \<lparr>position = - 2, velocity = 5, button_pressed = False\<rparr>) \<and>
   parse_encoder_data [0x00, 0x2A] =
     Inr (Some \<lparr>position = 42, velocity = 0, button_pressed = False\<rparr>) \<and>
   parse_encoder_data [0x2A] = Inr None"
  using parse_encoder_data_defaults [of "[0x00, 0x2A, 0x05, 0x01]"]
    parse_encoder_data_defaults [of "[0xFF, 0xFE, 0x05]"]
    parse_encoder_data_defaults [of "[0x00, 0x2A]"]
    parse_encoder_data_defaults [of "[0x2A]"]
  by (simp add: int16_be_def)

lemma encode_cp_raises_iff:
  "(encode_cp c = Inl err) = (is_surrogate c \<and> err = UnicodeEncodeError)"
  by (auto simp add: encode_cp_def is_surrogate_def)

lemma encode_cp_returns: "\<not> is_surrogate c \<Longrightarrow> \<exists>bs. encode_cp c = Inr bs"
  by (cases "encode_cp c") (simp_all add: encode_cp_raises_iff)

lemma utf8_encode_surrogate:
  "has_surrogate s \<Longrightarrow> utf8_encode s = Inl UnicodeEncodeError"
proof (induction s)
  case Nil
  then show ?case by (simp add: has_surrogate_def)
next
  case (Cons c cs)
  show ?case
  proof (cases "is_surrogate c")
    case True
    then have "encode_cp c = Inl UnicodeEncodeError" by (simp add: encode_cp_raises_iff)
    then show ?thesis by (simp add: bind_exn_def)
  next
    case False
    then obtain bs where bs: "encode_cp c = Inr bs" using encode_cp_returns by blast
    from False Cons.prems have "has_surrogate cs" by (simp add: has_surrogate_def)
    then have "utf8_encode cs = Inl UnicodeEncodeError" by (rule Cons.IH)
    then show ?thesis by (simp add: bs bind_exn_def)
  qed
qed

lemma utf8_encode_returns:
  "\<not> has_surrogate s \<Longrightarrow> \<exists>e. utf8_encode s = Inr e"
proof (induction s)
  case Nil
  show ?case by simp
next
  case (Cons c cs)
  then have c: "\<not> is_surrogate c" and cs: "\<not> has_surrogate cs"
    by (simp_all add: has_surrogate_def)
  from c obtain bs where bs: "encode_cp c = Inr bs" using encode_cp_returns by blast
  from Cons.IH [OF cs] obtain rest where rest: "utf8_encode cs = Inr rest" by blast
  show ?case by (simp add: bs rest bind_exn_def)
qed

lemma add_string_surrogate:
  "has_surrogate s \<Longrightarrow> add_string b s = Inl UnicodeEncodeError"
  by (simp add: add_string_def utf8_encode_surrogate bind_exn_def)

text \<open>
  Claim C6, as stated: every append that would take the buffer past \<open>max_size\<close> returns
  \<open>False\<close>. It fails for \<open>add_string\<close>: the text is encoded before the size is tested, so on
  a buffer that is already full a text holding the lone surrogate \<open>U+D800\<close> raises
  UnicodeEncodeError.
\<close>

theorem add_string_full_buffer_surrogate_raises:
  "add_string \<lparr>buffer = [1, 2, 3], max_size = 3\<rparr> [0xD800] = Inl UnicodeEncodeError"
  by (simp add: add_string_def encode_cp_def bind_exn_def)

text \<open>
  Claim C6, amended. When the bytes already in the buffer plus the bytes of the value
  exceed \<open>max_size\<close>, each of \<open>add_uint8\<close>, \<open>add_uint16\<close>, \<open>add_int16\<close>, \<open>add_int32\<close>,
  \<open>add_float\<close> and \<open>add_bytes\<close> returns \<open>False\<close> and leaves the builder (buffer and capacity)
  exactly as before, and so does \<open>add_string\<close> for every text that has a UTF-8 encoding
  \<open>e\<close>, whose bytes are the length byte and \<open>e\<close>. A text that holds a surrogate makes
  \<open>add_string\<close> raise UnicodeEncodeError, whatever the sizes; every other text has an
  encoding.
\<close>

theorem builder_overflow_false_or_encode_error:
  "(len (buffer b) + 1 > max_size b \<longrightarrow> add_uint8 b v = Inr (False, b)) \<and>
   (len (buffer b) + 2 > max_size b \<longrightarrow>
      add_uint16 b v = Inr (False, b) \<and> add_int16 b v = Inr (False, b)) \<and>
   (len (buffer b) + 4 > max_size b \<longrightarrow>
      add_int32 b v = Inr (False, b) \<and> add_float pack_f b x = Inr (False, b)) \<and>
   (utf8_encode s = Inr e \<and> len (buffer b) + 1 + len e > max_size b \<longrightarrow>
      add_string b s = Inr (False, b)) \<and>
   (has_surrogate s \<longrightarrow> add_string b s = Inl UnicodeEncodeError) \<and>
   (\<not> has_surrogate s \<longrightarrow> (\<exists>e'. utf8_encode s = Inr e')) \<and>
   (len (buffer b) + len d > max_size b \<longrightarrow> add_bytes b d = Inr (False, b))"
proof -
  have sized: "(len (buffer b) + 1 > max_size b \<longrightarrow> add_uint8 b v = Inr (False, b)) \<and>
      (len (buffer b) + 2 > max_size b \<longrightarrow>
         add_uint16 b v = Inr (False, b) \<and> add_int16 b v = Inr (False, b)) \<and>
      (len (buffer b) + 4 > max_size b \<longrightarrow>
         add_int32 b v = Inr (False, b) \<and> add_float pack_f b x = Inr (False, b)) \<and>
      (len (buffer b) + len d > max_size b \<longrightarrow> add_bytes b d = Inr (False, b))"
    by (simp add: add_uint8_def add_uint16_def add_int16_def add_int32_def add_float_def
        add_bytes_def)
  have str: "utf8_encode s = Inr e \<and> len (buffer b) + 1 + len e > max_size b \<longrightarrow>
      add_string b s = Inr (False, b)"
    by (simp add: add_string_def bind_exn_def)
  from sized str add_string_surrogate [of s b] utf8_encode_returns [of s]
  show ?thesis by blast
qed

theorem builder_overflow_false_or_encode_error_examples:
  "add_uint8 \<lparr>buffer = [1, 2, 3], max_size = 3\<rparr> 7 = Inr (False, \<lparr>buffer = [1, 2, 3], max_size = 3\<rparr>) \<and>
   add_uint16 \<lparr>buffer = [1, 2, 3], max_size = 3\<rparr> 7 = Inr (False, \<lparr>buffer = [1, 2, 3], max_size = 3\<rparr>) \<and>
   add_int16 \<lparr>buffer = [1, 2, 3], max_size = 3\<rparr> 7 = Inr (False, \<lparr>buffer = [1, 2, 3], max_size = 3\<rparr>) \<and>
   add_int32 \<lparr>buffer = [1, 2, 3], max_size = 3\<rparr> 7 = Inr (False, \<lparr>buffer = [1, 2, 3], max_size = 3\<rparr>) \<and>
   add_float (\<lambda>u :: unit. Inr [0x40, 0x49, 0x0F, 0xD0]) \<lparr>buffer = [1, 2, 3], max_size = 3\<rparr> ()
     = Inr (False, \<lparr>buffer = [1, 2, 3], max_size = 3\<rparr>) \<and>
   add_string \<lparr>buffer = [1, 2, 3], max_size = 3\<rparr> [0x48, 0x69]
     = Inr (False, \<lparr>buffer = [1, 2, 3], max_size = 3\<rparr>) \<and>
   add_bytes \<lparr>buffer = [1, 2, 3], max_size = 3\<rparr> [9, 9]
     = Inr (False, \<lparr>buffer = [1, 2, 3], max_size = 3\<rparr>) \<and>
   has_surrogate [0x48, 0xDC00] \<and>
   add_string \<lparr>buffer = [1, 2, 3], max_size = 1024\<rparr> [0x48, 0xDC00] = Inl UnicodeEncodeError"
proof -
  have sized:
    "add_uint8 \<lparr>buffer = [1, 2, 3], max_size = 3\<rparr> 7 = Inr (False, \<lparr>buffer = [1, 2, 3], max_size = 3\<rparr>) \<and>
     add_uint16 \<lparr>buffer = [1, 2, 3], max_size = 3\<rparr> 7 = Inr (False, \<lparr>buffer = [1, 2, 3], max_size = 3\<rparr>) \<and>
     add_int16 \<lparr>buffer = [1, 2, 3], max_size = 3\<rparr> 7 = Inr (False, \<lparr>buffer = [1, 2, 3], max_size = 3\<rparr>) \<and>
     add_int32 \<lparr>buffer = [1, 2, 3], max_size = 3\<rparr> 7 = Inr (False, \<lparr>buffer = [1, 2, 3], max_size = 3\<rparr>) \<and>
     add_float (\<lambda>u :: unit. Inr [0x40, 0x49, 0x0F, 0xD0]) \<lparr>buffer = [1, 2, 3], max_size = 3\<rparr> ()
       = Inr (False, \<lparr>buffer = [1, 2, 3], max_size = 3\<rparr>) \<and>
     add_string \<lparr>buffer = [1, 2, 3], max_size = 3\<rparr> [0x48, 0x69]
       = Inr (False, \<lparr>buffer = [1, 2, 3], max_size = 3\<rparr>) \<and>
     add_bytes \<lparr>buffer = [1, 2, 3], max_size = 3\<rparr> [9, 9]
       = Inr (False, \<lparr>buffer = [1, 2, 3], max_size = 3\<rparr>)"
    using builder_overflow_false_or_encode_error
        [where b = "\<lparr>buffer = [1, 2, 3], max_size = 3\<rparr>" and v = 7
           and pack_f = "\<lambda>u :: unit. Inr [0x40, 0x49, 0x0F, 0xD0]" and x = "()"
           and s = "[0x48, 0x69]" and e = "[0x48, 0x69]" and d = "[9, 9]"]
    by (simp add: len_def encode_cp_def bind_exn_def has_surrogate_def is_surrogate_def)
  have h: "has_surrogate [0x48, 0xDC00]"
    by (simp add: has_surrogate_def is_surrogate_def)
  have "add_string \<lparr>buffer = [1, 2, 3], max_size = 1024\<rparr> [0x48, 0xDC00] = Inl UnicodeEncodeError"
    by (rule builder_overflow_false_or_encode_error
          [THEN conjunct2, THEN conjunct2, THEN conjunct2, THEN conjunct2, THEN conjunct1,
           THEN mp, OF h])
  with sized h show ?thesis by (intro conjI) simp_all
qed

lemma add_uint8_appends:
  "add_uint8 b v = Inr (True, b1) \<Longrightarrow>
     buffer b1 = buffer b @ [word_of_int (v AND 0xFF)] \<and> max_size b1 = max_size b"
  by (auto simp add: add_uint8_def bind_exn_def byte_of_int_def split: if_splits)

lemma add_bytes_appends:
  "add_bytes b d = Inr (True, b2) \<Longrightarrow> buffer b2 = buffer b @ d \<and> max_size b2 = max_size b"
  by (auto simp add: add_bytes_def split: if_splits)

lemma add_string_appends:
  "add_string b s = Inr (True, b3) \<Longrightarrow>
     (\<exists>e. utf8_encode s = Inr e \<and> len e \<le> 255 \<and> len (buffer b) + 1 + len e \<le> max_size b \<and>
          buffer b3 = buffer b @ [word_of_int (len e)] @ e) \<and>
     max_size b3 = max_size b"
  by (cases "utf8_encode s")
     (auto simp add: add_string_def bind_exn_def byte_of_int_def split: if_splits)

lemma add_uint16_appends:
  "add_uint16 b v = Inr (True, b4) \<Longrightarrow>
     (\<exists>bs. pack_H v = Inr bs \<and> buffer b4 = buffer b @ bs) \<and> max_size b4 = max_size b"
  by (cases "pack_H v") (auto simp add: add_uint16_def bind_exn_def split: if_splits)

lemma add_int16_appends:
  "add_int16 b v = Inr (True, b5) \<Longrightarrow>
     (\<exists>bs. pack_h v = Inr bs \<and> buffer b5 = buffer b @ bs) \<and> max_size b5 = max_size b"
  by (cases "pack_h v") (auto simp add: add_int16_def bind_exn_def split: if_splits)

lemma add_int32_appends:
  "add_int32 b v = Inr (True, b6) \<Longrightarrow>
     (\<exists>bs. pack_i v = Inr bs \<and> buffer b6 = buffer b @ bs) \<and> max_size b6 = max_size b"
  by (cases "pack_i v") (auto simp add: add_int32_def bind_exn_def split: if_splits)

lemma add_float_appends:
  "add_float pack_f b x = Inr (True, b7) \<Longrightarrow>
     (\<exists>bs. pack_f x = Inr bs \<and> buffer b7 = buffer b @ bs) \<and> max_size b7 = max_size b"
  by (cases "pack_f x") (auto simp add: add_float_def bind_exn_def split: if_splits)

text \<open>
  Claim C9. \<open>get_payload\<close> returns the accumulated bytes and leaves the builder as it
  was (buffer and capacity); an append that succeeds on the builder after the call yields
  a builder whose payload is the payload returned before followed by the appended bytes,
  with the capacity unchanged.
\<close>

theorem get_payload_is_a_read:
  "get_payload b = (buffer b, b) \<and>
   (add_uint8 (snd (get_payload b)) v = Inr (True, b_u8) \<longrightarrow>
      fst (get_payload b_u8) = fst (get_payload b) @ [word_of_int (v AND 0xFF)] \<and>
      max_size b_u8 = max_size b) \<and>
   (add_bytes (snd (get_payload b)) d = Inr (True, b_bytes) \<longrightarrow>
      fst (get_payload b_bytes) = fst (get_payload b) @ d \<and> max_size b_bytes = max_size b) \<and>
   (add_string (snd (get_payload b)) s = Inr (True, b_str) \<longrightarrow>
      (\<exists>e. utf8_encode s = Inr e \<and>
           fst (get_payload b_str) = fst (get_payload b) @ [word_of_int (len e)] @ e) \<and>
      max_size b_str = max_size b) \<and>
   (add_uint16 (snd (get_payload b)) v = Inr (True, b_u16) \<longrightarrow>
      (\<exists>bs. pack_H v = Inr bs \<and> fst (get_payload b_u16) = fst (get_payload b) @ bs) \<and>
      max_size b_u16 = max_size b) \<and>
   (add_int16 (snd (get_payload b)) v = Inr (True, b_i16) \<longrightarrow>
      (\<exists>bs. pack_h v = Inr bs \<and> fst (get_payload b_i16) = fst (get_payload b) @ bs) \<and>
      max_size b_i16 = max_size b) \<and>
   (add_int32 (snd (get_payload b)) v = Inr (True, b_i32) \<longrightarrow>
      (\<exists>bs. pack_i v = Inr bs \<and> fst (get_payload b_i32) = fst (get_payload b) @ bs) \<and>
      max_size b_i32 = max_size b) \<and>
   (add_float pack_f (snd (get_payload b)) x = Inr (True, b_f32) \<longrightarrow>
      (\<exists>bs. pack_f x = Inr bs \<and> fst (get_payload b_f32) = fst (get_payload b) @ bs) \<and>
      max_size b_f32 = max_size b)"
proof -
  have g: "get_payload c = (buffer c, c)" for c
    by (simp add: get_payload_def)
  show ?thesis
    unfolding g fst_conv snd_conv
    using add_uint8_appends [of b v b_u8] add_bytes_appends [of b d b_bytes]
      add_string_appends [of b s b_str] add_uint16_appends [of b v b_u16]
      add_int16_appends [of b v b_i16] add_int32_appends [of b v b_i32]
      add_float_appends [of pack_f b x b_f32]
    by blast
qed

lemma read_string_prefixed:
  assumes short: "length e \<le> 255"
  shows "read_string \<lparr>parser_buffer = pre @ [word_of_int (len e)] @ e @ rest,
                       parser_position = len pre\<rparr> =
         Inr (Some (utf8_decode e),
              \<lparr>parser_buffer = pre @ [word_of_int (len e)] @ e @ rest,
               parser_position = len pre + 1 + len e\<rparr>)"
proof -
  let ?bs = "pre @ [word_of_int (len e)] @ e @ rest"
  have pos: "0 \<le> len pre" by (simp add: len_def)
  have fits: "\<not> len pre + 1 > len ?bs" by (simp add: len_def)
  have "?bs ! nat (len pre) = word_of_int (len e)"
    by (simp add: len_def)
  moreover have "uint (word_of_int (len e) :: byte) = len e"
    using short unat_byte_of_nat [of "length e"] by (simp add: len_def uint_nat)
  ultimately have r8: "read_uint8 \<lparr>parser_buffer = ?bs, parser_position = len pre\<rparr> =
      Inr (Some (len e), \<lparr>parser_buffer = ?bs, parser_position = len pre + 1\<rparr>)"
    using read_uint8_at [OF pos, of ?bs] fits by simp
  have fits2: "\<not> len pre + 1 + len e > len ?bs" by (simp add: len_def)
  have "py_slice ?bs (int (length pre + 1)) (int (length pre + 1 + length e)) =
      take (length e) (drop (length pre + 1) ?bs)"
    by (simp only: py_slice_nat) simp
  also have "\<dots> = e" by simp
  finally have sl: "py_slice ?bs (len pre + 1) (len pre + 1 + len e) = e"
    by (simp add: len_def ac_simps)
  show ?thesis
    unfolding read_string_def r8 bind_exn_def
    by (simp only: sum.case prod.case option.case PayloadParser.select_convs
        PayloadParser.update_convs fits2 if_False Let_def sl)
qed

text \<open>
  Claim C7. \<open>add_string\<close> returns \<open>False\<close> (and changes nothing) for every text whose UTF-8
  encoding \<open>e\<close> is longer than 255 bytes. For every text with an encoding of at most 255
  bytes that \<open>add_string\<close> appended, \<open>read_string\<close> at the position where the append began
  returns exactly the original text and moves the cursor past the length byte and the
  encoding, whatever follows in the buffer.
\<close>

theorem add_string_bounds_and_roundtrip:
  "(utf8_encode s = Inr e \<and> 255 < length e \<longrightarrow> add_string b s = Inr (False, b)) \<and>
   (str_ok s \<and> utf8_encode s = Inr e \<and> length e \<le> 255 \<and> add_string b s = Inr (True, b') \<longrightarrow>
      read_string \<lparr>parser_buffer = buffer b' @ rest, parser_position = len (buffer b)\<rparr> =
        Inr (Some s, \<lparr>parser_buffer = buffer b' @ rest,
                      parser_position = len (buffer b) + 1 + len e\<rparr>))"
proof (intro conjI impI)
  assume "utf8_encode s = Inr e \<and> 255 < length e"
  then show "add_string b s = Inr (False, b)"
    by (simp add: add_string_def bind_exn_def len_def)
next
  assume a: "str_ok s \<and> utf8_encode s = Inr e \<and> length e \<le> 255 \<and> add_string b s = Inr (True, b')"
  then have buf: "buffer b' = buffer b @ [word_of_int (len e)] @ e"
    using add_string_appends [of b s b'] by auto
  from a have dec: "utf8_decode e = s" using utf8_roundtrip by blast
  from a have short: "length e \<le> 255" by simp
  show "read_string \<lparr>parser_buffer = buffer b' @ rest, parser_position = len (buffer b)\<rparr> =
        Inr (Some s, \<lparr>parser_buffer = buffer b' @ rest,
                      parser_position = len (buffer b) + 1 + len e\<rparr>)"
    using read_string_prefixed [OF short, of "buffer b" rest] by (simp add: buf dec)
qed

lemma utf8_encode_Hi_euro: "utf8_encode [0x48, 0x69, 0x20AC] = Inr [0x48, 0x69, 0xE2, 0x82, 0xAC]"
  by (simp add: encode_cp_def bind_exn_def)

lemma utf8_encode_300: "utf8_encode (replicate 300 0x58) = Inr (replicate 300 0x58)"
proof -
  have "utf8_encode (replicate n 0x58) = Inr (replicate n 0x58)" for n
    by (induction n) (simp_all add: encode_cp_def bind_exn_def)
  then show ?thesis .
qed

theorem add_string_bounds_and_roundtrip_examples:
  "add_string \<lparr>buffer = [0x0A, 0x14], max_size = 1024\<rparr> (replicate 300 0x58) =
     Inr (False, \<lparr>buffer = [0x0A, 0x14], max_size = 1024\<rparr>) \<and>
   add_string \<lparr>buffer = [0x0A, 0x14], max_size = 1024\<rparr> [0x48, 0x69, 0x20AC] =
     Inr (True, \<lparr>buffer = [0x0A, 0x14, 0x05, 0x48, 0x69, 0xE2, 0x82, 0xAC], max_size = 1024\<rparr>) \<and>
   read_string \<lparr>parser_buffer = [0x0A, 0x14, 0x05, 0x48, 0x69, 0xE2, 0x82, 0xAC],
                parser_position = 2\<rparr> =
     Inr (Some [0x48, 0x69, 0x20AC],
          \<lparr>parser_buffer = [0x0A, 0x14, 0x05, 0x48, 0x69, 0xE2, 0x82, 0xAC], parser_position = 8\<rparr>)"
proof -
  let ?b = "\<lparr>buffer = [0x0A, 0x14], max_size = 1024\<rparr>"
  let ?b' = "\<lparr>buffer = [0x0A, 0x14, 0x05, 0x48, 0x69, 0xE2, 0x82, 0xAC], max_size = 1024\<rparr>"
  have add: "add_string ?b [0x48, 0x69, 0x20AC] = Inr (True, ?b')"
    by (simp add: add_string_def utf8_encode_Hi_euro bind_exn_def len_def byte_of_int_def
        del: utf8_encode.simps)
  have ok: "str_ok [0x48, 0x69, 0x20AC]" by (simp add: str_ok_def)
  have big: "255 < length (replicate 300 (0x58 :: byte))" by simp
  have first: "add_string ?b (replicate 300 0x58) = Inr (False, ?b)"
    by (rule add_string_bounds_and_roundtrip
          [THEN conjunct1, THEN mp, OF conjI [OF utf8_encode_300 big]])
  have short: "length [0x48, 0x69, 0xE2, 0x82, 0xAC :: byte] \<le> 255" by simp
  have "read_string \<lparr>parser_buffer = buffer ?b' @ [], parser_position = len (buffer ?b)\<rparr> =
        Inr (Some [0x48, 0x69, 0x20AC], \<lparr>parser_buffer = buffer ?b' @ [],
             parser_position = len (buffer ?b) + 1 + len [0x48, 0x69, 0xE2, 0x82, 0xAC :: byte]\<rparr>)"
    by (rule add_string_bounds_and_roundtrip
          [THEN conjunct2, THEN mp,
           OF conjI [OF ok conjI [OF utf8_encode_Hi_euro conjI [OF short add]]]])
  then have third: "read_string \<lparr>parser_buffer = [0x0A, 0x14, 0x05, 0x48, 0x69, 0xE2, 0x82, 0xAC],
                parser_position = 2\<rparr> =
     Inr (Some [0x48, 0x69, 0x20AC],
          \<lparr>parser_buffer = [0x0A, 0x14, 0x05, 0x48, 0x69, 0xE2, 0x82, 0xAC], parser_position = 8\<rparr>)"
    by (simp add: len_def)
  from first add third show ?thesis by (intro conjI)
qed

theorem get_payload_is_a_read_example:
  "get_payload \<lparr>buffer = [0x00, 0x2A], max_size = 1024\<rparr> =
     ([0x00, 0x2A], \<lparr>buffer = [0x00, 0x2A], max_size = 1024\<rparr>) \<and>
   add_bytes (snd (get_payload \<lparr>buffer = [0x00, 0x2A], max_size = 1024\<rparr>)) [0x05, 0x01] =
     Inr (True, \<lparr>buffer = [0x00, 0x2A, 0x05, 0x01], max_size = 1024\<rparr>) \<and>
   fst (get_payload \<lparr>buffer = [0x00, 0x2A, 0x05, 0x01], max_size = 1024\<rparr>) =
     fst (get_payload \<lparr>buffer = [0x00, 0x2A], max_size = 1024\<rparr>) @ [0x05, 0x01]"
proof -
  let ?b = "\<lparr>buffer = [0x00, 0x2A], max_size = 1024\<rparr>"
  let ?b2 = "\<lparr>buffer = [0x00, 0x2A, 0x05, 0x01], max_size = 1024\<rparr>"
  have add: "add_bytes (snd (get_payload ?b)) [0x05, 0x01] = Inr (True, ?b2)"
    by (simp add: get_payload_def add_bytes_def len_def)
  have "get_payload ?b = (buffer ?b, ?b)"
    by (rule get_payload_is_a_read [THEN conjunct1])
  moreover have "fst (get_payload ?b2) = fst (get_payload ?b) @ [0x05, 0x01]"
    by (rule get_payload_is_a_read
          [THEN conjunct2, THEN conjunct2, THEN conjunct1, THEN mp, OF add, THEN conjunct1])
  ultimately show ?thesis using add by simp
qed

text \<open>The six reads that check the bounds before they move the cursor leave it in place
  when they return \<open>None\<close>.\<close>

lemma read_uint8_failure_keeps_cursor: "read_uint8 p = Inr (None, p') \<Longrightarrow> p' = p"
  by (auto simp add: read_uint8_def bind_exn_def split: if_splits sum.splits)

lemma read_int16_failure_keeps_cursor: "read_int16 p = Inr (None, p') \<Longrightarrow> p' = p"
  by (auto simp add: read_int16_def bind_exn_def split: if_splits sum.splits)

lemma read_uint16_failure_keeps_cursor: "read_uint16 p = Inr (None, p') \<Longrightarrow> p' = p"
  by (auto simp add: read_uint16_def bind_exn_def split: if_splits sum.splits)

lemma read_int32_failure_keeps_cursor: "read_int32 p = Inr (None, p') \<Longrightarrow> p' = p"
  by (auto simp add: read_int32_def bind_exn_def split: if_splits sum.splits)

lemma read_float_failure_keeps_cursor: "read_float unpack_f p = Inr (None, p') \<Longrightarrow> p' = p"
  by (auto simp add: read_float_def bind_exn_def split: if_splits sum.splits)

lemma read_bytes_failure_keeps_cursor: "read_bytes p n = Inr (None, p') \<Longrightarrow> p' = p"
  by (auto simp add: read_bytes_def Let_def split: if_splits)

text \<open>
  Claim C5 says that a read which returns \<open>None\<close> leaves the cursor where it was. On the
  one-byte buffer \<open>05\<close>, \<open>read_string\<close> reads the length byte, finds no five bytes behind it
  and returns \<open>None\<close> with the cursor at 1.
\<close>

theorem read_string_consumes_length_byte_on_failure:
  "read_string \<lparr>parser_buffer = [0x05], parser_position = 0\<rparr> =
     Inr (None, \<lparr>parser_buffer = [0x05], parser_position = 1\<rparr>)"
  by code_simp

end
